theory Spec2Isabelle
  imports Main "HOL-Library.Word" "HOL-Library.Multiset" "HOL-Library.Monad_Syntax"
begin

unbundle bit_operations_syntax

section \<open>Data model\<close>

text \<open>
  The simulator of \<^verbatim>\<open>cachesim_modified.cc\<close> keeps, per cache, a geometry, a table of
  tag words and a table of per-set LRU orders, seven statistics counters and a pointer to
  the next cache level. \<^verbatim>\<open>uint64_t\<close> and \<^verbatim>\<open>size_t\<close> are 64-bit words (an LP64 target):
  \<open>+\<close>, \<open>-\<close> and \<open>*\<close> wrap around as in the source.
\<close>

type_synonym u64 = "64 word"

text \<open>
  The next level is known to a cache only as a pointer; \<open>None\<close> is the null pointer. The
  calls a cache makes through it are recorded, in order, as triples of address, byte
  count and store flag.
\<close>

type_synonym handler_ref = nat
type_synonym handler_call = "u64 \<times> u64 \<times> bool"

record cache_sim_t =
  sets :: u64
  ways :: u64
  linesz :: u64
  idx_shift :: nat
  tags :: "u64 list"
  lru :: "u64 list"
  read_accesses :: u64
  read_misses :: u64
  bytes_read :: u64
  write_accesses :: u64
  write_misses :: u64
  bytes_written :: u64
  writebacks :: u64
  miss_handler :: "handler_ref option"
  name :: string
  log :: bool

text \<open>
  \<^verbatim>\<open>help()\<close> prints the usage message and exits: \<open>ConfigError\<close>. An index outside an
  allocated array is undefined behaviour in the source; the model makes it a failure.
\<close>

datatype error = ConfigError | OutOfBounds

definition rd :: "u64 list \<Rightarrow> u64 \<Rightarrow> u64 option" where
  "rd a i = (if unat i < length a then Some (a ! unat i) else None)"

definition wr :: "u64 list \<Rightarrow> u64 \<Rightarrow> u64 \<Rightarrow> u64 list option" where
  "wr a i v = (if unat i < length a then Some (a[unat i := v]) else None)"

section \<open>Construction\<close>

text \<open>\<^verbatim>\<open>for (size_t x = linesz; x > 1; x >>= 1) idx_shift++;\<close>\<close>

function idx_shift_loop :: "u64 \<Rightarrow> nat \<Rightarrow> nat" where
  "idx_shift_loop x n = (if 1 < x then idx_shift_loop (drop_bit 1 x) (Suc n) else n)"
  by pat_completeness auto
termination
proof (relation "measure (\<lambda>(x, n). unat x)")
  show "wf (measure (\<lambda>(x::u64, n::nat). unat x))" by simp
next
  fix x :: u64 and n :: nat
  assume "1 < x"
  then have "unat (drop_bit 1 x) < unat x"
    by (simp add: unat_drop_bit_eq word_less_nat_alt drop_bit_eq_div unat_div)
  then show "((drop_bit 1 x, Suc n), (x, n)) \<in> measure (\<lambda>(x, n). unat x)"
    by simp
qed

text \<open>\<^verbatim>\<open>for (size_t j = 0; j < ways; j++) lru[i * ways + j] = ways - j - 1;\<close>\<close>

function init_lru_row :: "u64 \<Rightarrow> u64 list \<Rightarrow> u64 \<Rightarrow> u64 \<Rightarrow> u64 list option" where
  "init_lru_row w l i j =
     (if j < w then do {
        l' \<leftarrow> wr l (i * w + j) (w - j - 1);
        init_lru_row w l' i (j + 1)
      } else Some l)"
  by pat_completeness auto
termination
proof (relation "measure (\<lambda>(w, l, i, j). unat w - unat j)")
  show "wf (measure (\<lambda>(w::u64, l::u64 list, i::u64, j::u64). unat w - unat j))" by simp
next
  fix w :: u64 and l :: "u64 list" and i j :: u64 and l' :: "u64 list"
  assume "j < w"
  then have lt: "unat j < unat w" by (simp add: word_less_nat_alt)
  moreover have "unat w < 2 ^ 64" using unsigned_less [of w] by simp
  ultimately have "unat j + unat (1::u64) < 2 ^ LENGTH(64)" by simp
  then have "unat (j + 1) = Suc (unat j)" by (simp add: unat_add_lem [THEN iffD1])
  with lt show "((w, l', i, j + 1), (w, l, i, j)) \<in> measure (\<lambda>(w, l, i, j). unat w - unat j)"
    by simp
qed

text \<open>\<^verbatim>\<open>for (size_t i = 0; i < sets; i++) { ... }\<close>\<close>

function init_lru :: "u64 \<Rightarrow> u64 \<Rightarrow> u64 list \<Rightarrow> u64 \<Rightarrow> u64 list option" where
  "init_lru s w l i =
     (if i < s then do {
        l' \<leftarrow> init_lru_row w l i 0;
        init_lru s w l' (i + 1)
      } else Some l)"
  by pat_completeness auto
termination
proof (relation "measure (\<lambda>(s, w, l, i). unat s - unat i)")
  show "wf (measure (\<lambda>(s::u64, w::u64, l::u64 list, i::u64). unat s - unat i))" by simp
next
  fix s w :: u64 and l :: "u64 list" and i :: u64 and l' :: "u64 list"
  assume "i < s"
  then have lt: "unat i < unat s" by (simp add: word_less_nat_alt)
  moreover have "unat s < 2 ^ 64" using unsigned_less [of s] by simp
  ultimately have "unat i + unat (1::u64) < 2 ^ LENGTH(64)" by simp
  then have "unat (i + 1) = Suc (unat i)" by (simp add: unat_add_lem [THEN iffD1])
  with lt show "((s, w, l', i + 1), (s, w, l, i)) \<in> measure (\<lambda>(s, w, l, i). unat s - unat i)"
    by simp
qed

text \<open>
  The constructor \<^verbatim>\<open>cache_sim_t(sets, ways, linesz, name)\<close> stores its arguments, clears
  \<^verbatim>\<open>log\<close> and runs \<^verbatim>\<open>init()\<close>: the two geometry checks, the shift count, the two
  zero-filled arrays of \<^verbatim>\<open>sets * ways\<close> words (the product as \<^verbatim>\<open>size_t\<close> computes it),
  the LRU fill, zeroed counters and a null handler. The allocations are taken to succeed.
\<close>

definition init :: "u64 \<Rightarrow> u64 \<Rightarrow> u64 \<Rightarrow> string \<Rightarrow> error + cache_sim_t" where
  "init s w l nm =
     (if s = 0 \<or> s AND (s - 1) \<noteq> 0 then Inl ConfigError
      else if l < 8 \<or> l AND (l - 1) \<noteq> 0 then Inl ConfigError
      else case init_lru s w (replicate (unat (s * w)) 0) 0 of
        None \<Rightarrow> Inl OutOfBounds
      | Some lr \<Rightarrow> Inr \<lparr>
          sets = s, ways = w, linesz = l,
          idx_shift = idx_shift_loop l 0,
          tags = replicate (unat (s * w)) 0,
          lru = lr,
          read_accesses = 0, read_misses = 0, bytes_read = 0,
          write_accesses = 0, write_misses = 0, bytes_written = 0,
          writebacks = 0,
          miss_handler = None,
          name = nm, log = False \<rparr>)"

text \<open>\<^verbatim>\<open>fa_cache_sim_t(ways, linesz, name) : cache_sim_t(1, ways, linesz, name)\<close>\<close>

definition fa_init :: "u64 \<Rightarrow> u64 \<Rightarrow> string \<Rightarrow> error + cache_sim_t" where
  "fa_init w l nm = init 1 w l nm"

text \<open>
  The copy constructor takes the geometry, the name and \<^verbatim>\<open>log(false)\<close> in its initialiser
  list, allocates both arrays without value-initialisation and fills them with
  \<^verbatim>\<open>memcpy\<close> of \<^verbatim>\<open>sets * ways * sizeof(uint64_t)\<close> bytes. Nothing else is assigned: the
  counters and the handler pointer keep whatever the object's storage held. That storage
  is the argument \<open>junk\<close>, whose \<open>tags\<close> and \<open>lru\<close> stand for the content of the two new arrays
  before the copy.
\<close>

definition memcpy_u64 :: "u64 list \<Rightarrow> u64 list \<Rightarrow> u64 \<Rightarrow> u64 list option" where
  "memcpy_u64 dst src nbytes =
     (let n = unat nbytes div 8 in
      if n \<le> length dst \<and> n \<le> length src then Some (take n src @ drop n dst) else None)"

definition copy_ctor :: "cache_sim_t \<Rightarrow> cache_sim_t \<Rightarrow> cache_sim_t option" where
  "copy_ctor junk rhs =
     (let n = unat (sets rhs * ways rhs) in
      if length (tags junk) \<noteq> n \<or> length (lru junk) \<noteq> n then None
      else do {
        t \<leftarrow> memcpy_u64 (tags junk) (tags rhs) (sets rhs * ways rhs * 8);
        l \<leftarrow> memcpy_u64 (lru junk) (lru rhs) (sets rhs * ways rhs * 8);
        Some (junk\<lparr> sets := sets rhs, ways := ways rhs, linesz := linesz rhs,
                    idx_shift := idx_shift rhs, name := name rhs, log := False,
                    tags := t, lru := l \<rparr>)
      })"

section \<open>Tag lookup\<close>

text \<open>
  \<^verbatim>\<open>VALID\<close> and \<^verbatim>\<open>DIRTY\<close> are constants of \<^verbatim>\<open>cachesim.h\<close>, which is not among the
  sources. Every operation that uses them takes them as its first arguments \<open>V\<close> and \<open>D\<close>.
\<close>

text \<open>\<^verbatim>\<open>for (size_t j = i; j > 0; j--) lru[idx * ways + j] = lru[idx * ways + j - 1];\<close>\<close>

function shift_down :: "u64 list \<Rightarrow> u64 \<Rightarrow> u64 \<Rightarrow> u64 list option" where
  "shift_down l base j =
     (if 0 < j then do {
        v \<leftarrow> rd l (base + j - 1);
        l' \<leftarrow> wr l (base + j) v;
        shift_down l' base (j - 1)
      } else Some l)"
  by pat_completeness auto
termination
proof (relation "measure (\<lambda>(l, base, j). unat j)")
  show "wf (measure (\<lambda>(l::u64 list, base::u64, j::u64). unat j))" by simp
next
  fix l :: "u64 list" and base j v :: u64 and l' :: "u64 list"
  assume "0 < j"
  then have "unat (j - 1) < unat j"
    by (simp add: unat_minus_one word_neq_0_conv [symmetric] unat_gt_0)
  then show "((l', base, j - 1), (l, base, j)) \<in> measure (\<lambda>(l, base, j). unat j)"
    by simp
qed

text \<open>
  The loop over \<^verbatim>\<open>i\<close> that finds the LRU position of the way that hit, shifts the
  entries before it and puts the way at position 0 of its set; \<^verbatim>\<open>break\<close> leaves the loop.
\<close>

function promote :: "u64 list \<Rightarrow> u64 \<Rightarrow> u64 \<Rightarrow> u64 \<Rightarrow> u64 \<Rightarrow> u64 list option" where
  "promote l base w updated_way i =
     (if i < w then do {
        x \<leftarrow> rd l (base + i);
        if x = updated_way then do {
          l' \<leftarrow> shift_down l base i;
          wr l' base updated_way
        } else promote l base w updated_way (i + 1)
      } else Some l)"
  by pat_completeness auto
termination
proof (relation "measure (\<lambda>(l, base, w, u, i). unat w - unat i)")
  show "wf (measure (\<lambda>(l::u64 list, base::u64, w::u64, u::u64, i::u64). unat w - unat i))"
    by simp
next
  fix l :: "u64 list" and base w u i x :: u64
  assume "i < w"
  then have lt: "unat i < unat w" by (simp add: word_less_nat_alt)
  moreover have "unat w < 2 ^ 64" using unsigned_less [of w] by simp
  ultimately have "unat i + unat (1::u64) < 2 ^ LENGTH(64)" by simp
  then have "unat (i + 1) = Suc (unat i)" by (simp add: unat_add_lem [THEN iffD1])
  with lt show "((l, base, w, u, i + 1), (l, base, w, u, i))
      \<in> measure (\<lambda>(l, base, w, u, i). unat w - unat i)"
    by simp
qed

text \<open>
  The loop over \<^verbatim>\<open>k\<close>. The pointer \<^verbatim>\<open>&tags[idx * ways + k]\<close> is returned as the index of
  the slot in \<open>tags\<close>; \<open>None\<close> in its place is \<^verbatim>\<open>NULL\<close>.
\<close>

function scan_ways :: "u64 \<Rightarrow> cache_sim_t \<Rightarrow> u64 \<Rightarrow> u64 \<Rightarrow> u64 \<Rightarrow> (cache_sim_t \<times> u64 option) option" where
  "scan_ways D c idx tag k =
     (if k < ways c then do {
        t \<leftarrow> rd (tags c) (idx * ways c + k);
        if tag = t AND NOT D then do {
          l \<leftarrow> promote (lru c) (idx * ways c) (ways c) k 0;
          Some (c\<lparr>lru := l\<rparr>, Some (idx * ways c + k))
        } else scan_ways D c idx tag (k + 1)
      } else Some (c, None))"
  by pat_completeness auto
termination
proof (relation "measure (\<lambda>(D, c, idx, tag, k). unat (ways c) - unat k)")
  show "wf (measure (\<lambda>(D::u64, c::cache_sim_t, idx::u64, tag::u64, k::u64). unat (ways c) - unat k))"
    by simp
next
  fix D :: u64 and c :: cache_sim_t and idx tag k t :: u64
  assume "k < ways c"
  then have lt: "unat k < unat (ways c)" by (simp add: word_less_nat_alt)
  moreover have "unat (ways c) < 2 ^ 64" using unsigned_less [of "ways c"] by simp
  ultimately have "unat k + unat (1::u64) < 2 ^ LENGTH(64)" by simp
  then have "unat (k + 1) = Suc (unat k)" by (simp add: unat_add_lem [THEN iffD1])
  with lt show "((D, c, idx, tag, k + 1), (D, c, idx, tag, k))
      \<in> measure (\<lambda>(D, c, idx, tag, k). unat (ways c) - unat k)"
    by simp
qed

definition check_tag :: "u64 \<Rightarrow> u64 \<Rightarrow> cache_sim_t \<Rightarrow> u64 \<Rightarrow> (cache_sim_t \<times> u64 option) option" where
  "check_tag V D c addr =
     (let idx = drop_bit (idx_shift c) addr AND (sets c - 1);
          tag = drop_bit (idx_shift c) addr OR V
      in scan_ways D c idx tag 0)"

text \<open>\<^verbatim>\<open>fa_cache_sim_t::check_tag\<close> has the same text as \<^verbatim>\<open>cache_sim_t::check_tag\<close>.\<close>

definition fa_check_tag :: "u64 \<Rightarrow> u64 \<Rightarrow> cache_sim_t \<Rightarrow> u64 \<Rightarrow> (cache_sim_t \<times> u64 option) option" where
  "fa_check_tag V D c addr =
     (let idx = drop_bit (idx_shift c) addr AND (sets c - 1);
          tag = drop_bit (idx_shift c) addr OR V
      in scan_ways D c idx tag 0)"

section \<open>Victim selection\<close>

definition victimize :: "u64 \<Rightarrow> cache_sim_t \<Rightarrow> u64 \<Rightarrow> (cache_sim_t \<times> u64) option" where
  "victimize V c addr =
     (let idx = drop_bit (idx_shift c) addr AND (sets c - 1) in do {
        lru_way \<leftarrow> rd (lru c) (idx * ways c + ways c - 1);
        l \<leftarrow> shift_down (lru c) (idx * ways c) (ways c - 1);
        l' \<leftarrow> wr l (idx * ways c) lru_way;
        victim \<leftarrow> rd (tags c) (idx * ways c + lru_way);
        t' \<leftarrow> wr (tags c) (idx * ways c + lru_way) (drop_bit (idx_shift c) addr OR V);
        Some (c\<lparr>lru := l', tags := t'\<rparr>, victim)
      })"

text \<open>\<^verbatim>\<open>for (size_t i = ways - 1; i > 0; i--) lru[i] = lru[i - 1];\<close>\<close>

function fa_shift_down :: "u64 list \<Rightarrow> u64 \<Rightarrow> u64 list option" where
  "fa_shift_down l i =
     (if 0 < i then do {
        v \<leftarrow> rd l (i - 1);
        l' \<leftarrow> wr l i v;
        fa_shift_down l' (i - 1)
      } else Some l)"
  by pat_completeness auto
termination
proof (relation "measure (\<lambda>(l, i). unat i)")
  show "wf (measure (\<lambda>(l::u64 list, i::u64). unat i))" by simp
next
  fix l :: "u64 list" and i v :: u64 and l' :: "u64 list"
  assume "0 < i"
  then have "unat (i - 1) < unat i"
    by (simp add: unat_minus_one word_neq_0_conv [symmetric] unat_gt_0)
  then show "((l', i - 1), (l, i)) \<in> measure (\<lambda>(l, i). unat i)"
    by simp
qed

definition fa_victimize :: "u64 \<Rightarrow> cache_sim_t \<Rightarrow> u64 \<Rightarrow> (cache_sim_t \<times> u64) option" where
  "fa_victimize V c addr = do {
     lru_way \<leftarrow> rd (lru c) (ways c - 1);
     old_tag \<leftarrow> rd (tags c) lru_way;
     t' \<leftarrow> wr (tags c) lru_way (drop_bit (idx_shift c) addr OR V);
     l \<leftarrow> fa_shift_down (lru c) (ways c - 1);
     l' \<leftarrow> wr l 0 lru_way;
     Some (c\<lparr>tags := t', lru := l'\<rparr>, old_tag)
   }"

section \<open>Access\<close>

text \<open>
  \<^verbatim>\<open>access\<close> is written once, in the base class, and reaches \<^verbatim>\<open>check_tag\<close> and
  \<^verbatim>\<open>victimize\<close> through the object: \<open>chk\<close> and \<open>vic\<close> are the two functions of the object's
  class. The result is the new state and the calls made on the handler, oldest first;
  \<open>None\<close> is undefined behaviour: an index out of range, or the store through the pointer
  of the second lookup when that pointer is null. The trace line written when \<^verbatim>\<open>log\<close> is
  set changes no state and is left out.
\<close>

definition set_dirty :: "u64 \<Rightarrow> cache_sim_t \<Rightarrow> u64 \<Rightarrow> cache_sim_t option" where
  "set_dirty D c p = do {
     t \<leftarrow> rd (tags c) p;
     t' \<leftarrow> wr (tags c) p (t OR D);
     Some (c\<lparr>tags := t'\<rparr>)
   }"

definition count_access :: "cache_sim_t \<Rightarrow> u64 \<Rightarrow> bool \<Rightarrow> cache_sim_t" where
  "count_access c bytes store =
     (if store
      then c\<lparr>write_accesses := write_accesses c + 1, bytes_written := bytes_written c + bytes\<rparr>
      else c\<lparr>read_accesses := read_accesses c + 1, bytes_read := bytes_read c + bytes\<rparr>)"

definition count_miss :: "cache_sim_t \<Rightarrow> bool \<Rightarrow> cache_sim_t" where
  "count_miss c store =
     (if store then c\<lparr>write_misses := write_misses c + 1\<rparr>
      else c\<lparr>read_misses := read_misses c + 1\<rparr>)"

definition access_via ::
  "(cache_sim_t \<Rightarrow> u64 \<Rightarrow> (cache_sim_t \<times> u64 option) option) \<Rightarrow>
   (cache_sim_t \<Rightarrow> u64 \<Rightarrow> (cache_sim_t \<times> u64) option) \<Rightarrow>
   u64 \<Rightarrow> u64 \<Rightarrow> cache_sim_t \<Rightarrow> u64 \<Rightarrow> u64 \<Rightarrow> bool \<Rightarrow> (cache_sim_t \<times> handler_call list) option" where
  "access_via chk vic V D c addr bytes store = do {
     (c1, hit_way) \<leftarrow> chk (count_access c bytes store) addr;
     case hit_way of
       Some p \<Rightarrow>
         if store then do { c2 \<leftarrow> set_dirty D c1 p; Some (c2, []) }
         else Some (c1, [])
     | None \<Rightarrow> do {
         (c2, victim) \<leftarrow> vic (count_miss c1 store) addr;
         let is_dirty = (victim AND (V OR D) = (V OR D));
         let dirty_addr = push_bit (idx_shift c2) (victim AND NOT (V OR D));
         let wb = (if is_dirty \<and> miss_handler c2 \<noteq> None
                   then [(dirty_addr, linesz c2, True)] else []);
         let c3 = (if is_dirty then c2\<lparr>writebacks := writebacks c2 + 1\<rparr> else c2);
         let fill = (if miss_handler c3 \<noteq> None
                     then [(addr AND NOT (linesz c3 - 1), linesz c3, False)] else []);
         if store then do {
           (c4, p) \<leftarrow> chk c3 addr;
           case p of
             None \<Rightarrow> None
           | Some q \<Rightarrow> do { c5 \<leftarrow> set_dirty D c4 q; Some (c5, wb @ fill) }
         } else Some (c3, wb @ fill)
       }
   }"

definition access :: "u64 \<Rightarrow> u64 \<Rightarrow> cache_sim_t \<Rightarrow> u64 \<Rightarrow> u64 \<Rightarrow> bool \<Rightarrow> (cache_sim_t \<times> handler_call list) option" where
  "access V D = access_via (check_tag V D) (victimize V) V D"

definition fa_access :: "u64 \<Rightarrow> u64 \<Rightarrow> cache_sim_t \<Rightarrow> u64 \<Rightarrow> u64 \<Rightarrow> bool \<Rightarrow> (cache_sim_t \<times> handler_call list) option" where
  "fa_access V D = access_via (fa_check_tag V D) (fa_victimize V) V D"

text \<open>The loop equations are unfolded by hand, one iteration at a time.\<close>

declare idx_shift_loop.simps [simp del] init_lru_row.simps [simp del] init_lru.simps [simp del]
  shift_down.simps [simp del] promote.simps [simp del] scan_ways.simps [simp del]
  fa_shift_down.simps [simp del]

section \<open>Specification vocabulary\<close>

fun shift_nat :: "'a list \<Rightarrow> nat \<Rightarrow> nat \<Rightarrow> 'a list" where
  "shift_nat l b 0 = l"
| "shift_nat l b (Suc j) = shift_nat (l[b + Suc j := l ! (b + j)]) b j"

definition move_front :: "'a list \<Rightarrow> nat \<Rightarrow> nat \<Rightarrow> 'a list" where
  "move_front l b i = (shift_nat l b i)[b := l ! (b + i)]"

definition geom_ok :: "cache_sim_t \<Rightarrow> bool" where
  "geom_ok c \<longleftrightarrow> sets c \<noteq> 0 \<and> unat (sets c) * unat (ways c) < 2 ^ 64 \<and>
     length (tags c) = unat (sets c) * unat (ways c) \<and>
     length (lru c) = unat (sets c) * unat (ways c)"

definition promoted :: "u64 list \<Rightarrow> nat \<Rightarrow> nat \<Rightarrow> u64 \<Rightarrow> u64 list \<Rightarrow> bool" where
  "promoted l b W u l' \<longleftrightarrow>
     (l' = l \<and> (\<forall>p<W. l ! (b + p) \<noteq> u)) \<or>
     (\<exists>p<W. l ! (b + p) = u \<and> (\<forall>p'<p. l ! (b + p') \<noteq> u) \<and> l' = move_front l b p)"

definition lru_perm :: "cache_sim_t \<Rightarrow> bool" where
  "lru_perm c \<longleftrightarrow>
     (\<forall>i < unat (sets c).
        mset (take (unat (ways c)) (drop (i * unat (ways c)) (lru c)))
          = mset (map of_nat [0..<unat (ways c)]))"

definition set_base :: "cache_sim_t \<Rightarrow> u64 \<Rightarrow> nat" where
  "set_base c addr = unat (drop_bit (idx_shift c) addr AND (sets c - 1)) * unat (ways c)"

definition line_tag :: "u64 \<Rightarrow> cache_sim_t \<Rightarrow> u64 \<Rightarrow> u64" where
  "line_tag V c addr = drop_bit (idx_shift c) addr OR V"

definition victim_way :: "cache_sim_t \<Rightarrow> u64 \<Rightarrow> u64" where
  "victim_way c addr = lru c ! (set_base c addr + unat (ways c) - 1)"

definition flags_ok :: "u64 \<Rightarrow> u64 \<Rightarrow> bool" where
  "flags_ok V D \<longleftrightarrow> V \<noteq> 0 \<and> V AND D = 0 \<and> take_bit 61 D = 0"

section \<open>Supporting lemmas\<close>

subsection \<open>Index arithmetic without wrap-around\<close>

lemma unat_Suc_lt: "j < (w::u64) \<Longrightarrow> unat (j + 1) = Suc (unat j)"
proof -
  assume "j < w"
  then have "unat j < unat w" by (simp add: word_less_nat_alt)
  moreover have "unat w < 2 ^ 64" using unsigned_less [of w] by simp
  ultimately have "unat j + unat (1::u64) < 2 ^ LENGTH(64)" by simp
  then show ?thesis by (simp add: unat_add_lem [THEN iffD1])
qed

lemma unat_pred: "0 < (j::u64) \<Longrightarrow> unat (j - 1) = unat j - 1"
  by (simp add: unat_minus_one word_neq_0_conv [symmetric])

lemma unat_mul_small:
  fixes i w :: u64
  assumes "unat i * unat w < 2 ^ 64"
  shows "unat (i * w) = unat i * unat w"
  using assms by (simp add: unat_mult_lem [THEN iffD1])

lemma unat_add_small:
  fixes a b :: u64
  assumes "unat a + unat b < 2 ^ 64"
  shows "unat (a + b) = unat a + unat b"
  using assms by (simp add: unat_add_lem [THEN iffD1])

lemma row_bound:
  fixes i S W :: nat
  assumes "i < S"
  shows "i * W + W \<le> S * W"
proof -
  from assms have "Suc i \<le> S" by simp
  then have "Suc i * W \<le> S * W" by (rule mult_le_mono1)
  then show ?thesis by (simp add: add.commute)
qed

lemma unat_slot:
  fixes i s w j :: u64
  assumes nov: "unat s * unat w < 2 ^ 64" and i: "unat i < unat s" and j: "unat j < unat w"
  shows "unat (i * w + j) = unat i * unat w + unat j"
    and "unat i * unat w + unat j < unat s * unat w"
proof -
  have b: "unat i * unat w + unat w \<le> unat s * unat w" using i by (rule row_bound)
  with nov have "unat i * unat w < 2 ^ 64" by simp
  then have m: "unat (i * w) = unat i * unat w" by (rule unat_mul_small)
  from b j nov have "unat (i * w) + unat j < 2 ^ 64" by (simp add: m)
  then show "unat (i * w + j) = unat i * unat w + unat j" by (simp add: unat_add_small m)
  from b j show "unat i * unat w + unat j < unat s * unat w" by simp
qed

lemma unat_base:
  fixes i s w :: u64
  assumes nov: "unat s * unat w < 2 ^ 64" and i: "unat i < unat s"
  shows "unat (i * w) = unat i * unat w"
proof -
  have b: "unat i * unat w + unat w \<le> unat s * unat w" using i by (rule row_bound)
  with nov have "unat i * unat w < 2 ^ 64" by simp
  then show ?thesis by (rule unat_mul_small)
qed

lemma idx_lt:
  fixes x s :: u64
  assumes "s \<noteq> 0"
  shows "unat (x AND (s - 1)) < unat s"
proof -
  have "x AND (s - 1) \<le> s - 1" by (rule word_and_le1)
  then have "unat (x AND (s - 1)) \<le> unat (s - 1)" by (simp add: word_le_nat_alt)
  moreover have "unat (s - 1) = unat s - 1" using assms by (simp add: unat_minus_one)
  moreover have "0 < unat s" using assms by (simp add: unat_gt_0)
  ultimately show ?thesis by simp
qed

subsection \<open>The shift loop\<close>

lemma length_shift_nat: "length (shift_nat l b j) = length l"
  by (induction j arbitrary: l) simp_all

lemma shift_nat_nth:
  "b + j < length l \<Longrightarrow> p < length l \<Longrightarrow>
   shift_nat l b j ! p = (if b < p \<and> p \<le> b + j then l ! (p - 1) else l ! p)"
proof (induction j arbitrary: l)
  case 0
  then show ?case by auto
next
  case (Suc j)
  let ?l1 = "l[b + Suc j := l ! (b + j)]"
  have "shift_nat ?l1 b j ! p = (if b < p \<and> p \<le> b + j then ?l1 ! (p - 1) else ?l1 ! p)"
    using Suc.prems by (intro Suc.IH) simp_all
  then show ?case using Suc.prems by (auto simp: nth_list_update)
qed

lemma length_move_front: "length (move_front l b i) = length l"
  by (simp add: move_front_def length_shift_nat)

lemma move_front_nth:
  "b + i < length l \<Longrightarrow> p < length l \<Longrightarrow>
   move_front l b i ! p =
     (if p = b then l ! (b + i) else if b < p \<and> p \<le> b + i then l ! (p - 1) else l ! p)"
  by (simp add: move_front_def nth_list_update length_shift_nat shift_nat_nth)

lemma shift_down_eq:
  "unat base + unat j < length l \<Longrightarrow> length l \<le> 2 ^ 64 \<Longrightarrow>
   shift_down l base j = Some (shift_nat l (unat base) (unat j))"
proof (induction l base j rule: shift_down.induct)
  case (1 l base j)
  show ?case
  proof (cases "0 < j")
    case False
    then have "j = 0" by (simp add: word_neq_0_conv [symmetric])
    then show ?thesis by (simp add: shift_down.simps [of l base 0])
  next
    case True
    then have pj: "unat (j - 1) = unat j - 1" and j0: "0 < unat j"
      by (simp_all add: unat_pred word_less_nat_alt)
    from "1.prems" have "unat base + unat j < 2 ^ 64" by simp
    then have a: "unat (base + j) = unat base + unat j" by (rule unat_add_small)
    have e: "base + j - 1 = base + (j - 1)" by simp
    have "unat (base + (j - 1)) = unat base + unat (j - 1)"
      using \<open>unat base + unat j < 2 ^ 64\<close> pj by (intro unat_add_small) simp
    then have b: "unat (base + j - 1) = unat base + (unat j - 1)" by (simp only: e pj)
    let ?l1 = "l[unat base + unat j := l ! (unat base + (unat j - 1))]"
    have r: "rd l (base + j - 1) = Some (l ! (unat base + (unat j - 1)))"
      using "1.prems" j0 by (simp add: rd_def b)
    have w: "wr l (base + j) (l ! (unat base + (unat j - 1))) = Some ?l1"
      using "1.prems" by (simp add: wr_def a)
    have ih: "shift_down ?l1 base (j - 1) = Some (shift_nat ?l1 (unat base) (unat (j - 1)))"
      using "1.prems" True r w pj by (intro "1.IH") simp_all
    have "unat j = Suc (unat j - 1)" using j0 by simp
    then have "shift_nat l (unat base) (unat j) = shift_nat ?l1 (unat base) (unat j - 1)"
      by (metis shift_nat.simps(2))
    then show ?thesis
      using True r w ih pj by (simp add: shift_down.simps [of l base j])
  qed
qed

subsection \<open>Promotion of a way\<close>

lemma promote_spec:
  assumes "unat base + unat w \<le> length l" and "length l \<le> 2 ^ 64" and "unat i \<le> unat w"
  shows "\<exists>l'. promote l base w u i = Some l' \<and>
           (l' = l \<and> (\<forall>p. unat i \<le> p \<and> p < unat w \<longrightarrow> l ! (unat base + p) \<noteq> u)
            \<or> (\<exists>p. unat i \<le> p \<and> p < unat w \<and> l ! (unat base + p) = u
                  \<and> (\<forall>p'. unat i \<le> p' \<and> p' < p \<longrightarrow> l ! (unat base + p') \<noteq> u)
                  \<and> l' = move_front l (unat base) p))"
  using assms
proof (induction l base w u i rule: promote.induct)
  case (1 l base w u i)
  show ?case
  proof (cases "i < w")
    case False
    then have "unat i = unat w" using "1.prems" by (simp add: word_less_nat_alt)
    then show ?thesis using False by (auto simp: promote.simps [of l base w u i])
  next
    case True
    then have lt: "unat i < unat w" by (simp add: word_less_nat_alt)
    have s: "unat (i + 1) = Suc (unat i)" using True by (rule unat_Suc_lt)
    have "unat base + unat i < 2 ^ 64" using lt "1.prems" by simp
    then have a: "unat (base + i) = unat base + unat i" by (rule unat_add_small)
    have r: "rd l (base + i) = Some (l ! (unat base + unat i))"
      using lt "1.prems" by (simp add: rd_def a)
    show ?thesis
    proof (cases "l ! (unat base + unat i) = u")
      case hit: True
      have sd: "shift_down l base i = Some (shift_nat l (unat base) (unat i))"
        using lt "1.prems" by (intro shift_down_eq) simp_all
      have w: "wr (shift_nat l (unat base) (unat i)) base u
               = Some ((shift_nat l (unat base) (unat i))[unat base := u])"
        using lt "1.prems" by (simp add: wr_def length_shift_nat)
      have "promote l base w u i = Some (move_front l (unat base) (unat i))"
        using True r hit sd w by (simp add: promote.simps [of l base w u i] move_front_def)
      moreover have "\<forall>p'. unat i \<le> p' \<and> p' < unat i \<longrightarrow> l ! (unat base + p') \<noteq> u" by auto
      ultimately show ?thesis using lt hit by blast
    next
      case miss: False
      have eq: "promote l base w u i = promote l base w u (i + 1)"
        using True r miss by (simp add: promote.simps [of l base w u i])
      have "\<exists>l'. promote l base w u (i + 1) = Some l' \<and>
           (l' = l \<and> (\<forall>p. unat (i + 1) \<le> p \<and> p < unat w \<longrightarrow> l ! (unat base + p) \<noteq> u)
            \<or> (\<exists>p. unat (i + 1) \<le> p \<and> p < unat w \<and> l ! (unat base + p) = u
                  \<and> (\<forall>p'. unat (i + 1) \<le> p' \<and> p' < p \<longrightarrow> l ! (unat base + p') \<noteq> u)
                  \<and> l' = move_front l (unat base) p))"
        using True r miss lt s "1.prems" by (intro "1.IH") simp_all
      then obtain l' where l': "promote l base w u (i + 1) = Some l'"
        and d: "l' = l \<and> (\<forall>p. Suc (unat i) \<le> p \<and> p < unat w \<longrightarrow> l ! (unat base + p) \<noteq> u)
            \<or> (\<exists>p. Suc (unat i) \<le> p \<and> p < unat w \<and> l ! (unat base + p) = u
                  \<and> (\<forall>p'. Suc (unat i) \<le> p' \<and> p' < p \<longrightarrow> l ! (unat base + p') \<noteq> u)
                  \<and> l' = move_front l (unat base) p)"
        unfolding s by blast
      from d show ?thesis
      proof
        assume n: "l' = l \<and> (\<forall>p. Suc (unat i) \<le> p \<and> p < unat w \<longrightarrow> l ! (unat base + p) \<noteq> u)"
        have "\<forall>p. unat i \<le> p \<and> p < unat w \<longrightarrow> l ! (unat base + p) \<noteq> u"
        proof (intro allI impI)
          fix p assume "unat i \<le> p \<and> p < unat w"
          then have "p = unat i \<or> (Suc (unat i) \<le> p \<and> p < unat w)" by auto
          then show "l ! (unat base + p) \<noteq> u" using miss n by auto
        qed
        then show ?thesis using eq l' n by simp
      next
        assume "\<exists>p. Suc (unat i) \<le> p \<and> p < unat w \<and> l ! (unat base + p) = u
                  \<and> (\<forall>p'. Suc (unat i) \<le> p' \<and> p' < p \<longrightarrow> l ! (unat base + p') \<noteq> u)
                  \<and> l' = move_front l (unat base) p"
        then obtain p where p: "Suc (unat i) \<le> p" "p < unat w" "l ! (unat base + p) = u"
          "\<forall>p'. Suc (unat i) \<le> p' \<and> p' < p \<longrightarrow> l ! (unat base + p') \<noteq> u"
          "l' = move_front l (unat base) p" by blast
        from p(1) have "unat i \<le> p" by simp
        moreover have "\<forall>p'. unat i \<le> p' \<and> p' < p \<longrightarrow> l ! (unat base + p') \<noteq> u"
        proof (intro allI impI)
          fix p' assume "unat i \<le> p' \<and> p' < p"
          then have "p' = unat i \<or> (Suc (unat i) \<le> p' \<and> p' < p)" by auto
          then show "l ! (unat base + p') \<noteq> u" using miss p(4) by auto
        qed
        ultimately have "\<exists>p. unat i \<le> p \<and> p < unat w \<and> l ! (unat base + p) = u
                  \<and> (\<forall>p'. unat i \<le> p' \<and> p' < p \<longrightarrow> l ! (unat base + p') \<noteq> u)
                  \<and> l' = move_front l (unat base) p" using p by blast
        moreover have "promote l base w u i = Some l'" using eq l' by simp
        ultimately show ?thesis by blast
      qed
    qed
  qed
qed

subsection \<open>The scan over the ways of a set\<close>

lemma promote_promoted:
  assumes "unat base + unat w \<le> length l" and "length l \<le> 2 ^ 64"
  shows "\<exists>l'. promote l base w u 0 = Some l' \<and> promoted l (unat base) (unat w) u l'"
  using promote_spec [OF assms, of 0 u] by (auto simp: promoted_def)

lemma scan_ways_spec:
  assumes g: "geom_ok c" and i: "unat idx < unat (sets c)" and k: "unat k \<le> unat (ways c)"
  shows "(\<exists>q l'. unat k \<le> q \<and> q < unat (ways c)
            \<and> (\<forall>q'. unat k \<le> q' \<and> q' < q \<longrightarrow>
                   tag \<noteq> tags c ! (unat idx * unat (ways c) + q') AND NOT D)
            \<and> tag = tags c ! (unat idx * unat (ways c) + q) AND NOT D
            \<and> promoted (lru c) (unat idx * unat (ways c)) (unat (ways c)) (of_nat q) l'
            \<and> unat (idx * ways c + of_nat q) = unat idx * unat (ways c) + q
            \<and> scan_ways D c idx tag k = Some (c\<lparr>lru := l'\<rparr>, Some (idx * ways c + of_nat q)))
         \<or> ((\<forall>q. unat k \<le> q \<and> q < unat (ways c) \<longrightarrow>
                   tag \<noteq> tags c ! (unat idx * unat (ways c) + q) AND NOT D)
            \<and> scan_ways D c idx tag k = Some (c, None))"
  using g i k
proof (induction D c idx tag k rule: scan_ways.induct)
  case (1 D c idx tag k)
  note g = "1.prems"(1) and i = "1.prems"(2)
  let ?W = "unat (ways c)" and ?b = "unat idx * unat (ways c)"
  from g have nov: "unat (sets c) * ?W < 2 ^ 64" and lt: "length (tags c) = unat (sets c) * ?W"
    and ll: "length (lru c) = unat (sets c) * ?W" by (simp_all add: geom_ok_def)
  show ?case
  proof (cases "k < ways c")
    case False
    then have "unat k = ?W" using "1.prems" by (simp add: word_less_nat_alt)
    then show ?thesis using False by (auto simp: scan_ways.simps [of D c idx tag k])
  next
    case True
    then have klt: "unat k < ?W" by (simp add: word_less_nat_alt)
    have s: "unat (k + 1) = Suc (unat k)" using True by (rule unat_Suc_lt)
    have a: "unat (idx * ways c + k) = ?b + unat k" and a': "?b + unat k < unat (sets c) * ?W"
      using unat_slot [OF nov i klt] by simp_all
    have r: "rd (tags c) (idx * ways c + k) = Some (tags c ! (?b + unat k))"
      using a a' lt by (simp add: rd_def)
    show ?thesis
    proof (cases "tag = tags c ! (?b + unat k) AND NOT D")
      case hit: True
      have ub: "unat (idx * ways c) = ?b" using nov i by (rule unat_base)
      have "?b + ?W \<le> unat (sets c) * ?W" using i by (rule row_bound)
      then have "unat (idx * ways c) + ?W \<le> length (lru c)" and "length (lru c) \<le> 2 ^ 64"
        using ub ll nov by simp_all
      then obtain l' where p: "promote (lru c) (idx * ways c) (ways c) k 0 = Some l'"
        and pp: "promoted (lru c) ?b ?W k l'"
        using promote_promoted [of "idx * ways c" "ways c" "lru c" k] ub by auto
      have "scan_ways D c idx tag k = Some (c\<lparr>lru := l'\<rparr>, Some (idx * ways c + k))"
        using True r hit p by (subst scan_ways.simps) simp
      then have "unat k \<le> unat k \<and> unat k < ?W
            \<and> (\<forall>q'. unat k \<le> q' \<and> q' < unat k \<longrightarrow> tag \<noteq> tags c ! (?b + q') AND NOT D)
            \<and> tag = tags c ! (?b + unat k) AND NOT D
            \<and> promoted (lru c) ?b ?W (of_nat (unat k)) l'
            \<and> unat (idx * ways c + of_nat (unat k)) = ?b + unat k
            \<and> scan_ways D c idx tag k = Some (c\<lparr>lru := l'\<rparr>, Some (idx * ways c + of_nat (unat k)))"
        using klt hit pp a by auto
      then show ?thesis by blast
    next
      case miss: False
      have eq: "scan_ways D c idx tag k = scan_ways D c idx tag (k + 1)"
        using True r miss by (simp add: scan_ways.simps [of D c idx tag k])
      have ih: "(\<exists>q l'. Suc (unat k) \<le> q \<and> q < ?W
            \<and> (\<forall>q'. Suc (unat k) \<le> q' \<and> q' < q \<longrightarrow> tag \<noteq> tags c ! (?b + q') AND NOT D)
            \<and> tag = tags c ! (?b + q) AND NOT D
            \<and> promoted (lru c) ?b ?W (of_nat q) l'
            \<and> unat (idx * ways c + of_nat q) = ?b + q
            \<and> scan_ways D c idx tag (k + 1) = Some (c\<lparr>lru := l'\<rparr>, Some (idx * ways c + of_nat q)))
         \<or> ((\<forall>q. Suc (unat k) \<le> q \<and> q < ?W \<longrightarrow> tag \<noteq> tags c ! (?b + q) AND NOT D)
            \<and> scan_ways D c idx tag (k + 1) = Some (c, None))"
        using "1.IH" [OF True r miss g i] klt s by simp
      have step: "\<And>q. unat k \<le> q \<Longrightarrow> q = unat k \<or> Suc (unat k) \<le> q" by auto
      from ih show ?thesis
      proof
        assume "\<exists>q l'. Suc (unat k) \<le> q \<and> q < ?W
            \<and> (\<forall>q'. Suc (unat k) \<le> q' \<and> q' < q \<longrightarrow> tag \<noteq> tags c ! (?b + q') AND NOT D)
            \<and> tag = tags c ! (?b + q) AND NOT D
            \<and> promoted (lru c) ?b ?W (of_nat q) l'
            \<and> unat (idx * ways c + of_nat q) = ?b + q
            \<and> scan_ways D c idx tag (k + 1) = Some (c\<lparr>lru := l'\<rparr>, Some (idx * ways c + of_nat q))"
        then obtain q l' where q: "Suc (unat k) \<le> q" "q < ?W"
            "\<forall>q'. Suc (unat k) \<le> q' \<and> q' < q \<longrightarrow> tag \<noteq> tags c ! (?b + q') AND NOT D"
            "tag = tags c ! (?b + q) AND NOT D"
            "promoted (lru c) ?b ?W (of_nat q) l'"
            "unat (idx * ways c + of_nat q) = ?b + q"
            "scan_ways D c idx tag (k + 1) = Some (c\<lparr>lru := l'\<rparr>, Some (idx * ways c + of_nat q))"
          by blast
        have A: "\<forall>q'. unat k \<le> q' \<and> q' < q \<longrightarrow> tag \<noteq> tags c ! (?b + q') AND NOT D"
          using q(3) miss step by blast
        have B: "unat k \<le> q" using q(1) by simp
        have C: "scan_ways D c idx tag k = Some (c\<lparr>lru := l'\<rparr>, Some (idx * ways c + of_nat q))"
          using q(7) by (simp only: eq)
        show ?thesis
          apply (rule disjI1)
          apply (rule exI [of _ q])
          apply (rule exI [of _ l'])
          using A B C q(2) q(4) q(5) q(6) apply (intro conjI)
          apply assumption+
          done
      next
        assume n: "(\<forall>q. Suc (unat k) \<le> q \<and> q < ?W \<longrightarrow> tag \<noteq> tags c ! (?b + q) AND NOT D)
            \<and> scan_ways D c idx tag (k + 1) = Some (c, None)"
        then have "\<forall>q. unat k \<le> q \<and> q < ?W \<longrightarrow> tag \<noteq> tags c ! (?b + q) AND NOT D"
          using miss step by blast
        moreover have "scan_ways D c idx tag k = Some (c, None)" using n by (simp only: eq)
        ultimately show ?thesis by (intro disjI2 conjI)
      qed
    qed
  qed
qed

subsection \<open>Slices of the LRU table\<close>

lemma slice_nth_cong:
  assumes "length l' = length l"
    and "\<And>q. q < W \<Longrightarrow> b + q < length l \<Longrightarrow> l' ! (b + q) = l ! (b + q)"
  shows "take W (drop b l') = take W (drop b l)"
proof (rule nth_equalityI)
  show "length (take W (drop b l')) = length (take W (drop b l))" using assms(1) by simp
next
  fix q assume "q < length (take W (drop b l'))"
  then have "q < W" and "b + q < length l" using assms(1) by auto
  then show "take W (drop b l') ! q = take W (drop b l) ! q"
    using assms by simp
qed

lemma move_front_slice_same:
  assumes "b + W \<le> length l" and "p < W"
  shows "take W (drop b (move_front l b p)) =
           take W (drop b l) ! p # take p (take W (drop b l)) @ drop (Suc p) (take W (drop b l))"
proof (rule nth_equalityI)
  show "length (take W (drop b (move_front l b p))) =
        length (take W (drop b l) ! p # take p (take W (drop b l)) @ drop (Suc p) (take W (drop b l)))"
    using assms by (simp add: length_move_front)
next
  fix q assume "q < length (take W (drop b (move_front l b p)))"
  then have q: "q < W" using assms by (simp add: length_move_front)
  have "take W (drop b (move_front l b p)) ! q = move_front l b p ! (b + q)"
    using q assms by (simp add: length_move_front)
  also have "\<dots> = (if q = 0 then l ! (b + p) else if q \<le> p then l ! (b + q - 1) else l ! (b + q))"
    using q assms by (simp add: move_front_nth)
  also have "\<dots> = (take W (drop b l) ! p # take p (take W (drop b l)) @ drop (Suc p) (take W (drop b l))) ! q"
    using q assms by (auto simp: nth_Cons' nth_append min_def)
  finally show "take W (drop b (move_front l b p)) ! q =
     (take W (drop b l) ! p # take p (take W (drop b l)) @ drop (Suc p) (take W (drop b l))) ! q" .
qed

lemma move_front_slice_mset:
  assumes "b + W \<le> length l" and "p < W"
  shows "mset (take W (drop b (move_front l b p))) = mset (take W (drop b l))"
proof -
  let ?S = "take W (drop b l)"
  have "p < length ?S" using assms by simp
  then have "?S = take p ?S @ ?S ! p # drop (Suc p) ?S" by (rule id_take_nth_drop)
  then have "mset ?S = mset (take p ?S @ ?S ! p # drop (Suc p) ?S)" by simp
  also have "\<dots> = mset (?S ! p # take p ?S @ drop (Suc p) ?S)" by simp
  finally show ?thesis using move_front_slice_same [OF assms] by simp
qed

lemma move_front_slice_other:
  fixes i j W p :: nat
  assumes "i * W + W \<le> length l" and "p < W" and "j \<noteq> i"
  shows "take W (drop (j * W) (move_front l (i * W) p)) = take W (drop (j * W) l)"
proof (rule slice_nth_cong)
  show "length (move_front l (i * W) p) = length l" by (rule length_move_front)
next
  fix q assume q: "q < W" and r: "j * W + q < length l"
  have out: "j * W + q < i * W \<or> i * W + p < j * W + q"
  proof (cases "j < i")
    case True
    then have "Suc j \<le> i" by simp
    then have "Suc j * W \<le> i * W" by (rule mult_le_mono1)
    then show ?thesis using q by simp
  next
    case False
    then have "Suc i \<le> j" using assms(3) by simp
    then have "Suc i * W \<le> j * W" by (rule mult_le_mono1)
    then show ?thesis using assms(2) by simp
  qed
  have "i * W + p < length l" using assms by simp
  then show "move_front l (i * W) p ! (j * W + q) = l ! (j * W + q)"
    using r out by (auto simp: move_front_nth)
qed

subsection \<open>Lookup, case by case\<close>

lemma set_base_bound:
  assumes "geom_ok c"
  shows "set_base c addr + unat (ways c) \<le> unat (sets c) * unat (ways c)"
proof -
  from assms have "sets c \<noteq> 0" by (simp add: geom_ok_def)
  then have "unat (drop_bit (idx_shift c) addr AND (sets c - 1)) < unat (sets c)" by (rule idx_lt)
  then show ?thesis unfolding set_base_def by (rule row_bound)
qed

lemma check_tag_cases:
  assumes g: "geom_ok c"
  obtains (miss) "check_tag V D c addr = Some (c, None)"
      and "\<forall>q<unat (ways c). line_tag V c addr \<noteq> tags c ! (set_base c addr + q) AND NOT D"
  | (hit) q l' p where "q < unat (ways c)"
      and "\<forall>q'<q. line_tag V c addr \<noteq> tags c ! (set_base c addr + q') AND NOT D"
      and "line_tag V c addr = tags c ! (set_base c addr + q) AND NOT D"
      and "promoted (lru c) (set_base c addr) (unat (ways c)) (of_nat q) l'"
      and "unat p = set_base c addr + q"
      and "check_tag V D c addr = Some (c\<lparr>lru := l'\<rparr>, Some p)"
proof -
  let ?idx = "drop_bit (idx_shift c) addr AND (sets c - 1)"
  from g have "sets c \<noteq> 0" by (simp add: geom_ok_def)
  then have i: "unat ?idx < unat (sets c)" by (rule idx_lt)
  have k: "unat (0::u64) \<le> unat (ways c)" by simp
  have ct: "check_tag V D c addr = scan_ways D c ?idx (line_tag V c addr) 0"
    by (simp add: check_tag_def line_tag_def Let_def)
  from scan_ways_spec [OF g i k, of "line_tag V c addr" D]
  show thesis
  proof
    assume "\<exists>q l'. unat (0::u64) \<le> q \<and> q < unat (ways c)
            \<and> (\<forall>q'. unat (0::u64) \<le> q' \<and> q' < q \<longrightarrow>
                   line_tag V c addr \<noteq> tags c ! (unat ?idx * unat (ways c) + q') AND NOT D)
            \<and> line_tag V c addr = tags c ! (unat ?idx * unat (ways c) + q) AND NOT D
            \<and> promoted (lru c) (unat ?idx * unat (ways c)) (unat (ways c)) (of_nat q) l'
            \<and> unat (?idx * ways c + of_nat q) = unat ?idx * unat (ways c) + q
            \<and> scan_ways D c ?idx (line_tag V c addr) 0
                = Some (c\<lparr>lru := l'\<rparr>, Some (?idx * ways c + of_nat q))"
    then obtain q l' where h: "q < unat (ways c)"
        "\<forall>q'. unat (0::u64) \<le> q' \<and> q' < q \<longrightarrow>
                   line_tag V c addr \<noteq> tags c ! (unat ?idx * unat (ways c) + q') AND NOT D"
        "line_tag V c addr = tags c ! (unat ?idx * unat (ways c) + q) AND NOT D"
        "promoted (lru c) (unat ?idx * unat (ways c)) (unat (ways c)) (of_nat q) l'"
        "unat (?idx * ways c + of_nat q) = unat ?idx * unat (ways c) + q"
        "scan_ways D c ?idx (line_tag V c addr) 0
                = Some (c\<lparr>lru := l'\<rparr>, Some (?idx * ways c + of_nat q))"
      by blast
    from h(2) have "\<forall>q'<q. line_tag V c addr \<noteq> tags c ! (set_base c addr + q') AND NOT D"
      by (simp add: set_base_def)
    then show thesis
      using h(1) h(3) h(4) h(5) h(6) ct by (intro hit [of q l' "?idx * ways c + of_nat q"]) (simp_all only: set_base_def)
  next
    assume "(\<forall>q. unat (0::u64) \<le> q \<and> q < unat (ways c) \<longrightarrow>
                   line_tag V c addr \<noteq> tags c ! (unat ?idx * unat (ways c) + q) AND NOT D)
            \<and> scan_ways D c ?idx (line_tag V c addr) 0 = Some (c, None)"
    then show thesis using ct by (intro miss) (simp_all add: set_base_def)
  qed
qed

lemma perm_entry_lt:
  assumes "lru_perm c" and "i < unat (sets c)" and "p < unat (ways c)"
    and "i * unat (ways c) + unat (ways c) \<le> length (lru c)"
  shows "unat (lru c ! (i * unat (ways c) + p)) < unat (ways c)"
proof -
  let ?W = "unat (ways c)"
  let ?S = "take ?W (drop (i * ?W) (lru c))"
  have m: "mset ?S = mset (map of_nat [0..<?W])" using assms(1,2) by (simp add: lru_perm_def)
  have "?S ! p = lru c ! (i * ?W + p)" using assms(3,4) by simp
  moreover have "p < length ?S" using assms(3,4) by simp
  ultimately have "lru c ! (i * ?W + p) \<in> set ?S" by (metis nth_mem)
  then have "lru c ! (i * ?W + p) \<in> set (map of_nat [0..<?W])"
    using m by (metis set_mset_mset)
  then obtain v where v: "v < ?W" "lru c ! (i * ?W + p) = of_nat v" by auto
  have "?W < 2 ^ 64" using unsigned_less [of "ways c"] by simp
  then have "unat (of_nat v :: u64) = v" using v(1) by (simp add: unat_of_nat)
  then show ?thesis using v by simp
qed

subsection \<open>Victim selection and the permutation\<close>

lemma victimize_eq:
  assumes g: "geom_ok c" and w: "ways c \<noteq> 0" and v: "unat (victim_way c addr) < unat (ways c)"
  shows "victimize V c addr =
     Some (c\<lparr>lru := move_front (lru c) (set_base c addr) (unat (ways c) - 1),
              tags := (tags c)[set_base c addr + unat (victim_way c addr) := line_tag V c addr]\<rparr>,
           tags c ! (set_base c addr + unat (victim_way c addr)))"
proof -
  let ?idx = "drop_bit (idx_shift c) addr AND (sets c - 1)"
  let ?W = "unat (ways c)" and ?b = "set_base c addr" and ?way = "victim_way c addr"
  from g have nov: "unat (sets c) * ?W < 2 ^ 64" and lt: "length (tags c) = unat (sets c) * ?W"
    and ll: "length (lru c) = unat (sets c) * ?W" and s0: "sets c \<noteq> 0" by (simp_all add: geom_ok_def)
  from s0 have i: "unat ?idx < unat (sets c)" by (rule idx_lt)
  have W0: "0 < ?W" using w by (simp add: unat_gt_0)
  have p1: "unat (ways c - 1) = ?W - 1" using w by (simp add: unat_minus_one)
  then have p1lt: "unat (ways c - 1) < ?W" using W0 by simp
  have ub: "unat (?idx * ways c) = ?b" unfolding set_base_def using nov i by (rule unat_base)
  have bb: "?b + ?W \<le> unat (sets c) * ?W" using g by (rule set_base_bound)
  have e1: "?idx * ways c + ways c - 1 = ?idx * ways c + (ways c - 1)" by simp
  have u1: "unat (?idx * ways c + (ways c - 1)) = ?b + (?W - 1)"
    using unat_slot(1) [OF nov i p1lt] p1 by (simp add: set_base_def)
  have r1: "rd (lru c) (?idx * ways c + ways c - 1) = Some ?way"
    unfolding e1 using u1 bb ll W0 by (simp add: rd_def victim_way_def)
  have sd: "shift_down (lru c) (?idx * ways c) (ways c - 1)
            = Some (shift_nat (lru c) ?b (?W - 1))"
    using shift_down_eq [of "?idx * ways c" "ways c - 1" "lru c"] ub p1 bb ll nov W0 by simp
  have w1: "wr (shift_nat (lru c) ?b (?W - 1)) (?idx * ways c) ?way
            = Some (move_front (lru c) ?b (?W - 1))"
    using ub bb ll W0 by (simp add: wr_def length_shift_nat move_front_def victim_way_def)
  have u2: "unat (?idx * ways c + ?way) = ?b + unat ?way"
    and u2': "?b + unat ?way < unat (sets c) * ?W"
    using unat_slot [OF nov i v] by (simp_all add: set_base_def)
  have r2: "rd (tags c) (?idx * ways c + ?way) = Some (tags c ! (?b + unat ?way))"
    using u2 u2' lt by (simp add: rd_def)
  have w2: "wr (tags c) (?idx * ways c + ?way) (line_tag V c addr)
            = Some ((tags c)[?b + unat ?way := line_tag V c addr])"
    using u2 u2' lt by (simp add: wr_def)
  show ?thesis
    unfolding victimize_def Let_def
    using r1 sd w1 r2 w2 by (simp add: line_tag_def)
qed

lemma victim_way_lt:
  assumes g: "geom_ok c" and p: "lru_perm c" and w: "ways c \<noteq> 0"
  shows "unat (victim_way c addr) < unat (ways c)"
proof -
  let ?idx = "drop_bit (idx_shift c) addr AND (sets c - 1)"
  from g have s0: "sets c \<noteq> 0" and ll: "length (lru c) = unat (sets c) * unat (ways c)"
    by (simp_all add: geom_ok_def)
  from s0 have i: "unat ?idx < unat (sets c)" by (rule idx_lt)
  have W0: "0 < unat (ways c)" using w by (simp add: unat_gt_0)
  then have lt: "unat (ways c) - 1 < unat (ways c)" by simp
  have "unat ?idx * unat (ways c) + unat (ways c) \<le> length (lru c)"
    using set_base_bound [OF g, of addr] ll by (simp add: set_base_def)
  from perm_entry_lt [OF p i lt this] show ?thesis
    using W0 by (simp add: victim_way_def set_base_def)
qed

lemma perm_move_front:
  assumes g: "geom_ok c" and p: "lru_perm c" and q: "q < unat (ways c)"
  shows "lru_perm (c\<lparr>lru := move_front (lru c) (set_base c addr) q\<rparr>)"
  unfolding lru_perm_def
proof (intro allI impI)
  let ?idx = "drop_bit (idx_shift c) addr AND (sets c - 1)"
  let ?W = "unat (ways c)"
  let ?c' = "c\<lparr>lru := move_front (lru c) (set_base c addr) q\<rparr>"
  fix j assume "j < unat (sets ?c')"
  then have j: "j < unat (sets c)" by simp
  from g have ll: "length (lru c) = unat (sets c) * ?W" by (simp add: geom_ok_def)
  have bb: "unat ?idx * ?W + ?W \<le> length (lru c)"
    using set_base_bound [OF g, of addr] ll by (simp add: set_base_def)
  have "mset (take ?W (drop (j * ?W) (move_front (lru c) (unat ?idx * ?W) q)))
        = mset (take ?W (drop (j * ?W) (lru c)))"
  proof (cases "j = unat ?idx")
    case True
    then show ?thesis using move_front_slice_mset [OF bb q] by simp
  next
    case False
    then show ?thesis using move_front_slice_other [OF bb q False] by simp
  qed
  then show "mset (take (unat (ways ?c')) (drop (j * unat (ways ?c')) (lru ?c')))
        = mset (map of_nat [0..<unat (ways ?c')])"
    using p j by (simp add: lru_perm_def set_base_def)
qed

lemma perm_promoted:
  assumes g: "geom_ok c" and p: "lru_perm c"
    and pr: "promoted (lru c) (set_base c addr) (unat (ways c)) u l'"
  shows "lru_perm (c\<lparr>lru := l'\<rparr>)"
proof -
  from pr consider "l' = lru c" | q where "q < unat (ways c)" "l' = move_front (lru c) (set_base c addr) q"
    by (auto simp: promoted_def)
  then show ?thesis
  proof cases
    case 1
    then show ?thesis using p by (simp add: lru_perm_def)
  next
    case 2
    then show ?thesis using perm_move_front [OF g p 2(1), of addr] by simp
  qed
qed

lemma length_promoted: "promoted l b W u l' \<Longrightarrow> length l' = length l"
  by (auto simp: promoted_def length_move_front)

subsection \<open>The LRU fill of one set\<close>

lemma init_lru_row_spec:
  assumes "unat i * unat w + unat w \<le> length l" and "length l \<le> 2 ^ 64" and "unat j \<le> unat w"
  shows "\<exists>l'. init_lru_row w l i j = Some l' \<and> length l' = length l \<and>
           (\<forall>p<length l. l' ! p =
              (if unat i * unat w + unat j \<le> p \<and> p < unat i * unat w + unat w
               then w - of_nat (p - unat i * unat w) - 1 else l ! p))"
  using assms
proof (induction w l i j rule: init_lru_row.induct)
  case (1 w l i j)
  let ?b = "unat i * unat w"
  show ?case
  proof (cases "j < w")
    case False
    then have "unat j = unat w" using "1.prems" by (simp add: word_less_nat_alt)
    then show ?thesis using False by (auto simp: init_lru_row.simps [of w l i j])
  next
    case True
    then have jlt: "unat j < unat w" by (simp add: word_less_nat_alt)
    have s: "unat (j + 1) = Suc (unat j)" using True by (rule unat_Suc_lt)
    have "?b < 2 ^ 64" using jlt "1.prems" by simp
    then have m: "unat (i * w) = ?b" by (rule unat_mul_small)
    have "unat (i * w) + unat j < 2 ^ 64" using jlt "1.prems" m by simp
    then have a: "unat (i * w + j) = ?b + unat j" using m by (simp add: unat_add_small)
    let ?l1 = "l[?b + unat j := w - j - 1]"
    have w: "wr l (i * w + j) (w - j - 1) = Some ?l1"
      using a jlt "1.prems" by (simp add: wr_def)
    have "\<exists>l'. init_lru_row w ?l1 i (j + 1) = Some l' \<and> length l' = length ?l1 \<and>
           (\<forall>p<length ?l1. l' ! p =
              (if ?b + unat (j + 1) \<le> p \<and> p < ?b + unat w
               then w - of_nat (p - ?b) - 1 else ?l1 ! p))"
      using True w s jlt "1.prems" by (intro "1.IH") simp_all
    then obtain l' where r: "init_lru_row w ?l1 i (j + 1) = Some l'" and len: "length l' = length l"
      and nth: "\<forall>p<length l. l' ! p =
              (if ?b + Suc (unat j) \<le> p \<and> p < ?b + unat w
               then w - of_nat (p - ?b) - 1 else ?l1 ! p)"
      unfolding s by auto
    have eq: "init_lru_row w l i j = Some l'"
      using True w r by (simp add: init_lru_row.simps [of w l i j])
    have "\<forall>p<length l. l' ! p =
              (if ?b + unat j \<le> p \<and> p < ?b + unat w
               then w - of_nat (p - ?b) - 1 else l ! p)"
    proof (intro allI impI)
      fix p assume p: "p < length l"
      show "l' ! p = (if ?b + unat j \<le> p \<and> p < ?b + unat w
               then w - of_nat (p - ?b) - 1 else l ! p)"
      proof (cases "p = ?b + unat j")
        case True
        then have "l' ! p = ?l1 ! p" using nth p by simp
        also have "\<dots> = w - j - 1" using True p by simp
        finally show ?thesis using True jlt by simp
      next
        case False
        then show ?thesis using nth p by auto
      qed
    qed
    then show ?thesis using eq len by blast
  qed
qed

subsection \<open>The LRU fill of all sets\<close>

lemma init_lru_spec:
  assumes "unat s * unat w < 2 ^ 64" and "length l = unat s * unat w" and "unat i \<le> unat s"
  shows "\<exists>l'. init_lru s w l i = Some l' \<and> length l' = length l \<and>
           (\<forall>p<length l. l' ! p =
              (if unat i * unat w \<le> p then w - of_nat (p mod unat w) - 1 else l ! p))"
  using assms
proof (induction s w l i rule: init_lru.induct)
  case (1 s w l i)
  note nov = "1.prems"(1) and len0 = "1.prems"(2) and ile = "1.prems"(3)
  show ?case
  proof (cases "i < s")
    case False
    then have e: "unat i = unat s" using ile by (simp add: word_less_nat_alt)
    have "\<forall>p<length l. \<not> unat i * unat w \<le> p" unfolding e len0 by simp
    moreover have "init_lru s w l i = Some l" using False by (simp add: init_lru.simps [of s w l i])
    ultimately show ?thesis by simp
  next
    case True
    then have ilt: "unat i < unat s" by (simp add: word_less_nat_alt)
    have s: "unat (i + 1) = Suc (unat i)" using True by (rule unat_Suc_lt)
    let ?b = "unat i * unat w"
    have bb: "?b + unat w \<le> unat s * unat w" using ilt by (rule row_bound)
    have h1: "?b + unat w \<le> length l" using bb len0 by simp
    have h2: "length l \<le> 2 ^ 64" using nov len0 by simp
    have h3: "unat (0::u64) \<le> unat w" by simp
    from init_lru_row_spec [OF h1 h2 h3]
    obtain l1 where r1: "init_lru_row w l i 0 = Some l1" and len1: "length l1 = length l"
      and nth1: "\<forall>p<length l. l1 ! p =
              (if ?b \<le> p \<and> p < ?b + unat w then w - of_nat (p - ?b) - 1 else l ! p)"
      by auto
    have k1: "length l1 = unat s * unat w" using len1 len0 by simp
    have k2: "unat (i + 1) \<le> unat s" using s ilt by simp
    from "1.IH" [OF True r1 nov k1 k2]
    obtain l' where r: "init_lru s w l1 (i + 1) = Some l'" and len: "length l' = length l1"
      and nth: "\<forall>p<length l1. l' ! p =
              (if unat (i + 1) * unat w \<le> p then w - of_nat (p mod unat w) - 1 else l1 ! p)"
      by blast
    have eq: "init_lru s w l i = Some l'"
      using True r1 r by (simp add: init_lru.simps [of s w l i])
    have "\<forall>p<length l. l' ! p =
              (if ?b \<le> p then w - of_nat (p mod unat w) - 1 else l ! p)"
    proof (intro allI impI)
      fix p assume p: "p < length l"
      have A: "l' ! p = (if Suc (unat i) * unat w \<le> p
            then w - of_nat (p mod unat w) - 1 else l1 ! p)" using nth p len1 s by simp
      have B: "l1 ! p = (if ?b \<le> p \<and> p < ?b + unat w
            then w - of_nat (p - ?b) - 1 else l ! p)" using nth1 p by blast
      show "l' ! p = (if ?b \<le> p then w - of_nat (p mod unat w) - 1 else l ! p)"
      proof (cases "?b \<le> p \<and> p < ?b + unat w")
        case True
        then have d: "p - ?b < unat w" by linarith
        have "(p - ?b + unat i * unat w) mod unat w = (p - ?b) mod unat w" by simp
        moreover have "p - ?b + unat i * unat w = p" using True by simp
        ultimately have m: "p mod unat w = p - ?b" using d by simp
        have n: "\<not> Suc (unat i) * unat w \<le> p" using True by simp
        show ?thesis using True A B m n by simp
      next
        case False
        have c: "Suc (unat i) * unat w \<le> p \<longleftrightarrow> ?b \<le> p" using False by auto
        show ?thesis using False c A B by simp
      qed
    qed
    then show ?thesis using eq len len1 by simp
  qed
qed

lemma init_lru_fresh:
  assumes nov: "unat s * unat w < 2 ^ 64"
  shows "\<exists>lr. init_lru s w (replicate (unat (s * w)) 0) 0 = Some lr \<and>
           length lr = unat s * unat w \<and>
           (\<forall>i<unat s. \<forall>j<unat w. lr ! (i * unat w + j) = w - of_nat j - 1)"
proof -
  have m: "unat (s * w) = unat s * unat w" using nov by (rule unat_mul_small)
  let ?l = "replicate (unat (s * w)) (0::u64)"
  have "\<exists>l'. init_lru s w ?l 0 = Some l' \<and> length l' = length ?l \<and>
           (\<forall>p<length ?l. l' ! p =
              (if unat (0::u64) * unat w \<le> p then w - of_nat (p mod unat w) - 1 else ?l ! p))"
    using nov m by (intro init_lru_spec) simp_all
  then obtain lr where r: "init_lru s w ?l 0 = Some lr" and len: "length lr = unat s * unat w"
    and nth: "\<forall>p<unat s * unat w. lr ! p = w - of_nat (p mod unat w) - 1"
    using m by auto
  have "\<forall>i<unat s. \<forall>j<unat w. lr ! (i * unat w + j) = w - of_nat j - 1"
  proof (intro allI impI)
    fix i j assume i: "i < unat s" and j: "j < unat w"
    have "i * unat w + unat w \<le> unat s * unat w" using i by (rule row_bound)
    then have "i * unat w + j < unat s * unat w" using j by simp
    then have "lr ! (i * unat w + j) = w - of_nat ((i * unat w + j) mod unat w) - 1"
      using nth by blast
    then show "lr ! (i * unat w + j) = w - of_nat j - 1" using j by simp
  qed
  then show ?thesis using r len by blast
qed

lemma alg3: "c = a + 1 + b \<Longrightarrow> a = c - b - 1" for a b c :: u64
  by simp

lemma fresh_slice_perm:
  fixes w :: u64
  assumes len: "i * unat w + unat w \<le> length lr"
    and nth: "\<forall>j<unat w. lr ! (i * unat w + j) = w - of_nat j - 1"
  shows "mset (take (unat w) (drop (i * unat w) lr)) = mset (map of_nat [0..<unat w])"
proof -
  let ?W = "unat w"
  have "take ?W (drop (i * ?W) lr) = map (of_nat :: nat \<Rightarrow> u64) (rev [0..<?W])"
  proof (rule nth_equalityI)
    show "length (take ?W (drop (i * ?W) lr)) = length (map (of_nat :: nat \<Rightarrow> u64) (rev [0..<?W]))"
      using len by simp
  next
    fix j assume "j < length (take ?W (drop (i * ?W) lr))"
    then have j: "j < ?W" by simp
    then have "take ?W (drop (i * ?W) lr) ! j = w - of_nat j - 1" using len nth by simp
    moreover have "rev [0..<?W] ! j = ?W - 1 - j" using j by (simp add: rev_nth)
    moreover have "(of_nat (?W - 1 - j) :: u64) = w - of_nat j - 1"
    proof -
      have "?W = Suc (?W - 1 - j) + j" using j by simp
      then have "(of_nat ?W :: u64) = of_nat (Suc (?W - 1 - j) + j)" by simp
      then have "w = of_nat (?W - 1 - j) + 1 + of_nat j" by (simp add: ac_simps)
      then show ?thesis by (rule alg3)
    qed
    ultimately show "take ?W (drop (i * ?W) lr) ! j = map (of_nat :: nat \<Rightarrow> u64) (rev [0..<?W]) ! j"
      using j by simp
  qed
  then show ?thesis by (simp add: rev_map [symmetric])
qed

subsection \<open>A product that wraps leaves the arrays too short\<close>

lemma init_lru_row_in_bounds:
  assumes "init_lru_row w l i j = Some l'"
  shows "length l' = length l \<and>
         (\<forall>q. unat j \<le> q \<and> q < unat w \<longrightarrow> unat (i * w + of_nat q) < length l)"
  using assms
proof (induction w l i j arbitrary: l' rule: init_lru_row.induct)
  case (1 w l i j)
  show ?case
  proof (cases "j < w")
    case False
    then have "unat w \<le> unat j" by (simp add: word_less_nat_alt)
    moreover have "l' = l" using False "1.prems" by (simp add: init_lru_row.simps [of w l i j])
    ultimately show ?thesis by simp
  next
    case True
    have s: "unat (j + 1) = Suc (unat j)" using True by (rule unat_Suc_lt)
    from "1.prems" True obtain l1 where w: "wr l (i * w + j) (w - j - 1) = Some l1"
      and r: "init_lru_row w l1 i (j + 1) = Some l'"
      by (auto simp: init_lru_row.simps [of w l i j] split: bind_splits)
    from w have inb: "unat (i * w + j) < length l" and len1: "length l1 = length l"
      by (auto simp: wr_def split: if_splits)
    from "1.IH" [OF True w r] have len: "length l' = length l1"
      and rest: "\<forall>q. Suc (unat j) \<le> q \<and> q < unat w \<longrightarrow> unat (i * w + of_nat q) < length l1"
      unfolding s by simp_all
    have "\<forall>q. unat j \<le> q \<and> q < unat w \<longrightarrow> unat (i * w + of_nat q) < length l"
    proof (intro allI impI)
      fix q assume q: "unat j \<le> q \<and> q < unat w"
      show "unat (i * w + of_nat q) < length l"
      proof (cases "q = unat j")
        case True
        then show ?thesis using inb by simp
      next
        case False
        then have "Suc (unat j) \<le> q \<and> q < unat w" using q by simp
        then show ?thesis using rest len1 by simp
      qed
    qed
    then show ?thesis using len len1 by simp
  qed
qed

lemma init_lru_in_bounds:
  assumes "init_lru s w l i = Some l'"
  shows "length l' = length l \<and>
         (\<forall>i' q. unat i \<le> i' \<and> i' < unat s \<and> q < unat w \<longrightarrow>
                unat (of_nat i' * w + of_nat q :: u64) < length l)"
  using assms
proof (induction s w l i arbitrary: l' rule: init_lru.induct)
  case (1 s w l i)
  show ?case
  proof (cases "i < s")
    case False
    then have "unat s \<le> unat i" by (simp add: word_less_nat_alt)
    moreover have "l' = l" using False "1.prems" by (simp add: init_lru.simps [of s w l i])
    ultimately show ?thesis by simp
  next
    case True
    have s: "unat (i + 1) = Suc (unat i)" using True by (rule unat_Suc_lt)
    from "1.prems" True obtain l1 where r1: "init_lru_row w l i 0 = Some l1"
      and r: "init_lru s w l1 (i + 1) = Some l'"
      by (auto simp: init_lru.simps [of s w l i] split: bind_splits)
    from init_lru_row_in_bounds [OF r1] have len1: "length l1 = length l"
      and row: "\<forall>q. q < unat w \<longrightarrow> unat (i * w + of_nat q) < length l"
      by simp_all
    from "1.IH" [OF True r1 r] have len: "length l' = length l1"
      and rest: "\<forall>i' q. Suc (unat i) \<le> i' \<and> i' < unat s \<and> q < unat w \<longrightarrow>
                unat (of_nat i' * w + of_nat q :: u64) < length l1"
      unfolding s by simp_all
    have "\<forall>i' q. unat i \<le> i' \<and> i' < unat s \<and> q < unat w \<longrightarrow>
                unat (of_nat i' * w + of_nat q :: u64) < length l"
    proof (intro allI impI)
      fix i' q assume h: "unat i \<le> i' \<and> i' < unat s \<and> q < unat w"
      show "unat (of_nat i' * w + of_nat q :: u64) < length l"
      proof (cases "i' = unat i")
        case True
        then show ?thesis using row h by simp
      next
        case False
        then have "Suc (unat i) \<le> i' \<and> i' < unat s \<and> q < unat w" using h by simp
        then show ?thesis using rest len1 by simp
      qed
    qed
    then show ?thesis using len len1 by simp
  qed
qed

lemma init_lru_no_overflow:
  assumes "init_lru s w (replicate (unat (s * w)) 0) 0 = Some lr"
  shows "unat s * unat w < 2 ^ 64"
proof (rule ccontr)
  assume "\<not> unat s * unat w < 2 ^ 64"
  then have big: "2 ^ 64 \<le> unat s * unat w" by simp
  let ?L = "unat (s * w)"
  have L: "?L < 2 ^ 64" using unsigned_less [of "s * w"] by simp
  then have Llt: "?L < unat s * unat w" using big by simp
  then have W0: "0 < unat w" by (cases "unat w = 0") simp_all
  let ?i = "?L div unat w" and ?q = "?L mod unat w"
  have q: "?q < unat w" using W0 by simp
  have i: "?i < unat s" using Llt W0 by (simp add: less_mult_imp_div_less mult.commute)
  from init_lru_in_bounds [OF assms] have
    "\<forall>i' q. unat (0::u64) \<le> i' \<and> i' < unat s \<and> q < unat w \<longrightarrow>
                unat (of_nat i' * w + of_nat q :: u64) < length (replicate ?L (0::u64))"
    by blast
  then have "unat (of_nat ?i * w + of_nat ?q :: u64) < ?L" using i q by simp
  moreover have "(of_nat ?i * w + of_nat ?q :: u64) = of_nat (?i * unat w + ?q)"
    by (simp only: of_nat_add of_nat_mult of_nat_unat unsigned_word_eqI ucast_id)
  moreover have "?i * unat w + ?q = ?L" by simp
  ultimately have "unat (of_nat ?L :: u64) < ?L" by simp
  then show False by simp
qed

subsection \<open>Shift count and flag bits\<close>

lemma idx_shift_loop_ge: "n \<le> idx_shift_loop x n"
proof (induction x n rule: idx_shift_loop.induct)
  case (1 x n)
  show ?case
  proof (cases "1 < x")
    case True
    then have "Suc n \<le> idx_shift_loop x n" using "1.IH" by (simp add: idx_shift_loop.simps [of x n])
    then show ?thesis by simp
  next
    case False
    then show ?thesis by (simp add: idx_shift_loop.simps [of x n])
  qed
qed

lemma idx_shift_loop_step:
  "1 < x \<Longrightarrow> idx_shift_loop x n = idx_shift_loop (drop_bit 1 x) (Suc n)"
  by (subst idx_shift_loop.simps) simp

lemma idx_shift_loop_ge3:
  assumes "8 \<le> (l::u64)"
  shows "3 \<le> idx_shift_loop l 0"
proof -
  from assms have u: "8 \<le> unat l" by (simp add: word_le_nat_alt)
  have d1: "unat (drop_bit 1 l) = unat l div 2"
    by (simp add: unat_drop_bit_eq drop_bit_eq_div unat_div)
  have d2: "unat (drop_bit 1 (drop_bit 1 l)) = unat l div 2 div 2"
    by (simp add: unat_drop_bit_eq drop_bit_eq_div unat_div)
  have a: "1 < l" using u by (simp add: word_less_nat_alt)
  have b: "1 < drop_bit 1 l" using u d1 by (simp add: word_less_nat_alt)
  have c: "1 < drop_bit 1 (drop_bit 1 l)" using u d2 by (simp add: word_less_nat_alt)
  have "idx_shift_loop l 0 = idx_shift_loop (drop_bit 1 l) (Suc 0)"
    using a by (rule idx_shift_loop_step)
  also have "\<dots> = idx_shift_loop (drop_bit 1 (drop_bit 1 l)) (Suc (Suc 0))"
    using b by (rule idx_shift_loop_step)
  also have "\<dots> = idx_shift_loop (drop_bit 1 (drop_bit 1 (drop_bit 1 l))) (Suc (Suc (Suc 0)))"
    using c by (rule idx_shift_loop_step)
  finally have "idx_shift_loop l 0 =
      idx_shift_loop (drop_bit 1 (drop_bit 1 (drop_bit 1 l))) (Suc (Suc (Suc 0)))" .
  moreover have "Suc (Suc (Suc 0)) \<le>
      idx_shift_loop (drop_bit 1 (drop_bit 1 (drop_bit 1 l))) (Suc (Suc (Suc 0)))"
    by (rule idx_shift_loop_ge)
  ultimately show ?thesis by simp
qed

lemma shifted_no_dirty:
  assumes "take_bit 61 (D::u64) = 0" and "3 \<le> n"
  shows "drop_bit n (a::u64) AND D = 0"
proof (rule bit_eqI)
  fix k
  have "\<not> (bit (drop_bit n a) k \<and> bit D k)"
  proof
    assume h: "bit (drop_bit n a) k \<and> bit D k"
    then have "bit a (n + k)" by (simp add: bit_drop_bit_eq)
    then have "n + k < 64" using bit_imp_le_length [of a "n + k"] by simp
    then have "k < 61" using assms(2) by simp
    then have "bit (take_bit 61 D) k" using h by (simp add: bit_take_bit_iff)
    then show False using assms(1) by simp
  qed
  then show "bit (drop_bit n a AND D) k \<longleftrightarrow> bit (0::u64) k" by (simp add: bit_and_iff)
qed

lemma and_not_id:
  assumes "x AND D = (0::u64)"
  shows "x AND NOT D = x"
proof (rule bit_eqI)
  fix k
  have "\<not> (bit x k \<and> bit D k)"
  proof
    assume "bit x k \<and> bit D k"
    then have "bit (x AND D) k" by (simp add: bit_and_iff)
    then show False using assms by simp
  qed
  then show "bit (x AND NOT D) k \<longleftrightarrow> bit x k"
    by (auto simp: bit_and_iff bit_not_iff dest: bit_imp_le_length)
qed

lemma line_tag_clean:
  assumes "flags_ok V D" and "3 \<le> idx_shift c"
  shows "line_tag V c addr AND NOT D = line_tag V c addr"
proof -
  have "drop_bit (idx_shift c) addr AND D = 0"
    using assms by (intro shifted_no_dirty) (simp_all add: flags_ok_def)
  moreover have "V AND D = 0" using assms by (simp add: flags_ok_def)
  ultimately have "line_tag V c addr AND D = 0"
    by (simp add: line_tag_def bit.conj_disj_distrib2)
  then show ?thesis by (rule and_not_id)
qed

lemma line_tag_nonzero:
  assumes "flags_ok V D"
  shows "line_tag V c addr \<noteq> 0"
  using assms by (auto simp: flags_ok_def line_tag_def or_eq_0_iff)

lemma flags_ok_spike: "flags_ok (push_bit 63 1) (push_bit 62 1)"
  by (simp add: flags_ok_def)

subsection \<open>The freshly constructed cache\<close>

lemma init_Inr:
  assumes "init s w l nm = Inr c"
  shows "sets c = s \<and> ways c = w \<and> linesz c = l \<and> idx_shift c = idx_shift_loop l 0
     \<and> tags c = replicate (unat s * unat w) 0
     \<and> read_accesses c = 0 \<and> read_misses c = 0 \<and> bytes_read c = 0
     \<and> write_accesses c = 0 \<and> write_misses c = 0 \<and> bytes_written c = 0
     \<and> writebacks c = 0 \<and> miss_handler c = None \<and> name c = nm \<and> \<not> log c"
    and "s \<noteq> 0" and "s AND (s - 1) = 0" and "8 \<le> l" and "l AND (l - 1) = 0"
    and "unat s * unat w < 2 ^ 64"
    and "length (lru c) = unat s * unat w"
    and "\<forall>i<unat s. \<forall>j<unat w. lru c ! (i * unat w + j) = w - of_nat j - 1"
proof -
  from assms have chk: "s \<noteq> 0" "s AND (s - 1) = 0" "8 \<le> l" "l AND (l - 1) = 0"
    by (auto simp: init_def split: if_splits)
  from assms obtain lr where lr: "init_lru s w (replicate (unat (s * w)) 0) 0 = Some lr"
    by (auto simp: init_def split: if_splits option.splits)
  then have nov: "unat s * unat w < 2 ^ 64" by (rule init_lru_no_overflow)
  then have m: "unat (s * w) = unat s * unat w" by (rule unat_mul_small)
  from init_lru_fresh [OF nov] lr have len: "length lr = unat s * unat w"
    and nth: "\<forall>i<unat s. \<forall>j<unat w. lr ! (i * unat w + j) = w - of_nat j - 1"
    by auto
  have nl: "\<not> l < 8" using chk(3) by (simp add: not_less)
  from assms lr chk nl have c: "c = \<lparr>
          sets = s, ways = w, linesz = l,
          idx_shift = idx_shift_loop l 0,
          tags = replicate (unat (s * w)) 0,
          lru = lr,
          read_accesses = 0, read_misses = 0, bytes_read = 0,
          write_accesses = 0, write_misses = 0, bytes_written = 0,
          writebacks = 0,
          miss_handler = None,
          name = nm, log = False \<rparr>"
    by (simp add: init_def)
  show "sets c = s \<and> ways c = w \<and> linesz c = l \<and> idx_shift c = idx_shift_loop l 0
     \<and> tags c = replicate (unat s * unat w) 0
     \<and> read_accesses c = 0 \<and> read_misses c = 0 \<and> bytes_read c = 0
     \<and> write_accesses c = 0 \<and> write_misses c = 0 \<and> bytes_written c = 0
     \<and> writebacks c = 0 \<and> miss_handler c = None \<and> name c = nm \<and> \<not> log c"
    by (simp add: c m)
  show "s \<noteq> 0" "s AND (s - 1) = 0" "8 \<le> l" "l AND (l - 1) = 0" by (rule chk)+
  show "unat s * unat w < 2 ^ 64" by (rule nov)
  show "length (lru c) = unat s * unat w" by (simp add: c len)
  show "\<forall>i<unat s. \<forall>j<unat w. lru c ! (i * unat w + j) = w - of_nat j - 1"
    using nth by (simp add: c)
qed

lemma init_geom_ok:
  assumes "init s w l nm = Inr c"
  shows "geom_ok c"
  using init_Inr(1,2,6,7) [OF assms] by (simp add: geom_ok_def)

lemma init_lru_perm:
  assumes "init s w l nm = Inr c"
  shows "lru_perm c"
  unfolding lru_perm_def
proof (intro allI impI)
  fix i assume "i < unat (sets c)"
  then have i: "i < unat s" using init_Inr(1) [OF assms] by simp
  have "i * unat w + unat w \<le> unat s * unat w" using i by (rule row_bound)
  then have len: "i * unat w + unat w \<le> length (lru c)" using init_Inr(7) [OF assms] by simp
  have "\<forall>j<unat w. lru c ! (i * unat w + j) = w - of_nat j - 1"
    using init_Inr(8) [OF assms] i by blast
  from fresh_slice_perm [OF len this]
  show "mset (take (unat (ways c)) (drop (i * unat (ways c)) (lru c)))
          = mset (map of_nat [0..<unat (ways c)])"
    using init_Inr(1) [OF assms] by simp
qed

lemma init_idx_shift:
  assumes "init s w l nm = Inr c"
  shows "3 \<le> idx_shift c"
  using init_Inr(1,4) [OF assms] idx_shift_loop_ge3 [of l] by simp

lemma init_succeeds:
  assumes "s \<noteq> 0" and "s AND (s - 1) = 0" and "8 \<le> l" and "l AND (l - 1) = 0"
    and "unat s * unat w < 2 ^ 64"
  shows "\<exists>c. init s w l nm = Inr c"
proof -
  from init_lru_fresh [OF assms(5)] obtain lr
    where "init_lru s w (replicate (unat (s * w)) 0) 0 = Some lr" by blast
  moreover have "\<not> l < 8" using assms(3) by (simp add: not_less)
  ultimately show ?thesis using assms by (simp add: init_def)
qed

lemma init_config_error_iff:
  "init s w l nm = Inl ConfigError \<longleftrightarrow>
     s = 0 \<or> s AND (s - 1) \<noteq> 0 \<or> l < 8 \<or> l AND (l - 1) \<noteq> 0"
  by (auto simp: init_def split: option.splits)

section \<open>Claims\<close>

text \<open>
  C6. Construction validation. \<^verbatim>\<open>init()\<close> checks \<^verbatim>\<open>sets\<close> and \<^verbatim>\<open>linesz\<close> and nothing
  else: a geometry with no ways passes it, although the usage message of \<^verbatim>\<open>help()\<close> asks
  for positive \<^verbatim>\<open>sets\<close>, \<^verbatim>\<open>ways\<close> and \<^verbatim>\<open>blocksize\<close>. The cache built from \<^verbatim>\<open>1:0:8\<close>
  has empty tables, and the first victim selection on it reads \<^verbatim>\<open>lru[-1]\<close>.
\<close>

theorem init_accepts_zero_ways:
  "init 1 0 8 ''L1'' = Inr \<lparr>
      sets = 1, ways = 0, linesz = 8, idx_shift = 3, tags = [], lru = [],
      read_accesses = 0, read_misses = 0, bytes_read = 0,
      write_accesses = 0, write_misses = 0, bytes_written = 0,
      writebacks = 0, miss_handler = None, name = ''L1'', log = False \<rparr>
   \<and> victimize V \<lparr>
      sets = 1, ways = 0, linesz = 8, idx_shift = 3, tags = [], lru = [],
      read_accesses = 0, read_misses = 0, bytes_read = 0,
      write_accesses = 0, write_misses = 0, bytes_written = 0,
      writebacks = 0, miss_handler = None, name = ''L1'', log = False \<rparr> a = None"
proof -
  have r: "init_lru_row 0 [] 0 0 = Some []" by (subst init_lru_row.simps) simp
  have "init_lru 1 0 [] (0 + 1) = Some []" by (subst init_lru.simps) simp
  then have l: "init_lru 1 0 [] 0 = Some []" using r by (subst init_lru.simps) simp
  have "idx_shift_loop (drop_bit 1 (drop_bit 1 (drop_bit 1 (8::u64)))) 3 = 3"
    by (subst idx_shift_loop.simps) simp
  then have "idx_shift_loop (8::u64) 0 = 3"
    by (simp add: idx_shift_loop_step numeral_3_eq_3)
  then show ?thesis using l by (simp add: init_def victimize_def rd_def)
qed

text \<open>
  C10. The copy constructor. With both tables of the source of their allocated size
  \<^verbatim>\<open>sets * ways\<close> (small enough for the byte count of \<^verbatim>\<open>memcpy\<close> not to wrap), the copy
  has the geometry, the shift count, the name, the tag table and the LRU table of the
  source and a cleared \<^verbatim>\<open>log\<close>. Its seven counters and its handler pointer are those of
  the storage the object was built in: nothing of the source reaches them.
\<close>

theorem copy_ctor_copies_geometry_and_tables:
  assumes lt: "length (tags rhs) = unat (sets rhs) * unat (ways rhs)"
    and ll: "length (lru rhs) = unat (sets rhs) * unat (ways rhs)"
    and small: "unat (sets rhs) * unat (ways rhs) < 2 ^ 61"
    and jt: "length (tags junk) = unat (sets rhs) * unat (ways rhs)"
    and jl: "length (lru junk) = unat (sets rhs) * unat (ways rhs)"
  shows "\<exists>c'. copy_ctor junk rhs = Some c'
     \<and> sets c' = sets rhs \<and> ways c' = ways rhs \<and> linesz c' = linesz rhs
     \<and> idx_shift c' = idx_shift rhs \<and> name c' = name rhs \<and> \<not> log c'
     \<and> tags c' = tags rhs \<and> lru c' = lru rhs
     \<and> read_accesses c' = read_accesses junk \<and> read_misses c' = read_misses junk
     \<and> bytes_read c' = bytes_read junk \<and> write_accesses c' = write_accesses junk
     \<and> write_misses c' = write_misses junk \<and> bytes_written c' = bytes_written junk
     \<and> writebacks c' = writebacks junk \<and> miss_handler c' = miss_handler junk"
proof -
  let ?n = "unat (sets rhs) * unat (ways rhs)"
  have "?n < 2 ^ 64" using small by simp
  then have m: "unat (sets rhs * ways rhs) = ?n" by (rule unat_mul_small)
  have "unat (sets rhs * ways rhs) * unat (8::u64) < 2 ^ 64" using small m by simp
  then have "unat (sets rhs * ways rhs * 8) = unat (sets rhs * ways rhs) * unat (8::u64)"
    by (rule unat_mul_small)
  then have b: "unat (sets rhs * ways rhs * 8) div 8 = ?n" using m by simp
  have t: "memcpy_u64 (tags junk) (tags rhs) (sets rhs * ways rhs * 8) = Some (tags rhs)"
    using b lt jt by (simp add: memcpy_u64_def)
  have l: "memcpy_u64 (lru junk) (lru rhs) (sets rhs * ways rhs * 8) = Some (lru rhs)"
    using b ll jl by (simp add: memcpy_u64_def)
  show ?thesis using t l m jt jl by (simp add: copy_ctor_def)
qed

theorem copy_ctor_copies_geometry_and_tables_witness:
  "\<exists>c'. copy_ctor
      \<lparr> sets = 4, ways = 9, linesz = 16, idx_shift = 7, tags = [70], lru = [90],
        read_accesses = 11, read_misses = 12, bytes_read = 13,
        write_accesses = 14, write_misses = 15, bytes_written = 16,
        writebacks = 17, miss_handler = Some 3, name = ''old'', log = True \<rparr>
      \<lparr> sets = 1, ways = 1, linesz = 8, idx_shift = 3, tags = [5], lru = [0],
        read_accesses = 1, read_misses = 1, bytes_read = 4,
        write_accesses = 0, write_misses = 0, bytes_written = 0,
        writebacks = 0, miss_handler = None, name = ''L1'', log = True \<rparr> = Some c'
     \<and> sets c' = 1 \<and> ways c' = 1 \<and> linesz c' = 8 \<and> idx_shift c' = 3
     \<and> name c' = ''L1'' \<and> \<not> log c' \<and> tags c' = [5] \<and> lru c' = [0]
     \<and> read_accesses c' = 11 \<and> read_misses c' = 12 \<and> bytes_read c' = 13
     \<and> write_accesses c' = 14 \<and> write_misses c' = 15 \<and> bytes_written c' = 16
     \<and> writebacks c' = 17 \<and> miss_handler c' = Some 3"
  using copy_ctor_copies_geometry_and_tables
    [of "\<lparr> sets = 1, ways = 1, linesz = 8, idx_shift = 3, tags = [5], lru = [0],
        read_accesses = 1, read_misses = 1, bytes_read = 4,
        write_accesses = 0, write_misses = 0, bytes_written = 0,
        writebacks = 0, miss_handler = None, name = ''L1'', log = True \<rparr>"
        "\<lparr> sets = 4, ways = 9, linesz = 16, idx_shift = 7, tags = [70], lru = [90],
        read_accesses = 11, read_misses = 12, bytes_read = 13,
        write_accesses = 14, write_misses = 15, bytes_written = 16,
        writebacks = 17, miss_handler = Some 3, name = ''old'', log = True \<rparr>"]
  by simp

end
